theory Spec2Isabelle
  imports Main "HOL-Library.Word"
begin

section \<open>The circular buffer of package buff\<close>

text \<open>
  The package keeps a fixed number of byte slices in a ring and answers whether a key
  is among them. The model is sequential: every method of the source takes the
  buffer's \<^verbatim>\<open>sync.RWMutex\<close> for its whole body, so each call is one atomic step on
  the record below, and the mutex field itself is left out.

  Go's \<^verbatim>\<open>int\<close> is modelled by \<open>int\<close>: the only arithmetic on it is \<open>ptr + 1\<close>,
  \<open>ptr - 1\<close>, \<open>size - 1\<close> and loop counters that stay between \<open>-1\<close> and \<open>size\<close>,
  so nothing wraps around. Memory is not modelled: an allocation of any non-negative
  length succeeds.
  Byte slices are values: the model does not follow a caller that writes into a slice
  after handing it to \<^verbatim>\<open>Add\<close>.
\<close>

subsection \<open>Byte slices\<close>

type_synonym byte = "8 word"

text \<open>A \<^verbatim>\<open>[]byte\<close> is either \<^verbatim>\<open>nil\<close> or a slice with its bytes.\<close>

datatype bytes = NilSlice | Slice "byte list"

fun contents :: "bytes \<Rightarrow> byte list" where
  "contents NilSlice = []"
| "contents (Slice xs) = xs"

text \<open>\<^verbatim>\<open>len(s)\<close>, which is 0 for \<^verbatim>\<open>nil\<close>.\<close>

definition len :: "bytes \<Rightarrow> nat" where
  "len s = length (contents s)"

text \<open>\<^verbatim>\<open>make([]byte, n)\<close>: a fresh slice of \<open>n\<close> zero bytes, never \<^verbatim>\<open>nil\<close>.\<close>

definition make_bytes :: "nat \<Rightarrow> bytes" where
  "make_bytes n = Slice (replicate n 0)"

text \<open>
  \<^verbatim>\<open>copy(dst, src)\<close> overwrites the first \<open>min (len dst) (len src)\<close> bytes of
  \<open>dst\<close>; the result is \<open>dst\<close> afterwards.
\<close>

definition copy_bytes :: "bytes \<Rightarrow> bytes \<Rightarrow> bytes" where
  "copy_bytes dst src =
     (case dst of
        NilSlice \<Rightarrow> NilSlice
      | Slice d \<Rightarrow> Slice (take (length d) (contents src) @ drop (len src) d))"

text \<open>
  \<^verbatim>\<open>bytes.Equal(a, b)\<close> compares the two byte sequences; a \<^verbatim>\<open>nil\<close> argument
  counts as the empty sequence.
\<close>

definition bytes_Equal :: "bytes \<Rightarrow> bytes \<Rightarrow> bool" where
  "bytes_Equal a b \<longleftrightarrow> contents a = contents b"

subsection \<open>Run-time panics\<close>

datatype panic = IndexOutOfRange | MakeSliceLen

text \<open>\<^verbatim>\<open>xs[i]\<close> as an expression: Go panics when the index is out of range.\<close>

definition slot_at :: "'a list \<Rightarrow> int \<Rightarrow> panic + 'a" where
  "slot_at xs i =
     (if 0 \<le> i \<and> i < int (length xs) then Inr (xs ! nat i) else Inl IndexOutOfRange)"

text \<open>\<^verbatim>\<open>xs[i] = v\<close>, with the same range check.\<close>

definition set_slot :: "'a list \<Rightarrow> int \<Rightarrow> 'a \<Rightarrow> panic + 'a list" where
  "set_slot xs i v =
     (if 0 \<le> i \<and> i < int (length xs) then Inr (xs[nat i := v]) else Inl IndexOutOfRange)"

text \<open>\<^verbatim>\<open>make([][]byte, n)\<close>: \<open>n\<close> slots, all \<^verbatim>\<open>nil\<close>; a negative length panics.\<close>

definition make_slots :: "int \<Rightarrow> panic + bytes list" where
  "make_slots n = (if n < 0 then Inl MakeSliceLen else Inr (replicate (nat n) NilSlice))"

subsection \<open>The buffer\<close>

type_synonym Mode = "8 word"

definition Recent :: Mode where
  "Recent = 0"

definition Oldest :: Mode where
  "Oldest = 1"

record buff =
  size_buff :: int
  mode :: Mode
  ptr :: int
  data :: "bytes list"

datatype error = errSize | errMode

text \<open>
  \<^verbatim>\<open>Init\<close>: the size is checked first, then the mode. Past the first check the size
  is at least one, so the allocation of the slots cannot panic.
\<close>

definition Init :: "int \<Rightarrow> Mode \<Rightarrow> error + buff" where
  "Init sz m =
     (if sz < 1 then Inl errSize
      else if m \<noteq> 0 \<and> m \<noteq> 1 then Inl errMode
      else Inr \<lparr>size_buff = sz, mode = m, ptr = 0, data = replicate (nat sz) NilSlice\<rparr>)"

text \<open>\<^verbatim>\<open>Add\<close>: store at \<open>ptr\<close>, increment, wrap to 0 on reaching \<open>size\<close>.\<close>

definition Add :: "buff \<Rightarrow> bytes \<Rightarrow> panic + buff" where
  "Add b d =
     (case set_slot (data b) (ptr b) d of
        Inl p \<Rightarrow> Inl p
      | Inr ds \<Rightarrow>
          (let p1 = ptr b + 1
           in Inr (b\<lparr>ptr := (if p1 = size_buff b then 0 else p1), data := ds\<rparr>)))"

text \<open>\<^verbatim>\<open>Reset\<close>: a new all-\<^verbatim>\<open>nil\<close> slot array and \<open>ptr = 0\<close>.\<close>

definition Reset :: "buff \<Rightarrow> panic + buff" where
  "Reset b =
     (case make_slots (size_buff b) of
        Inl p \<Rightarrow> Inl p
      | Inr ds \<Rightarrow> Inr (b\<lparr>ptr := 0, data := ds\<rparr>))"

text \<open>
  \<^verbatim>\<open>GetRecent\<close>: with \<open>ptr = 0\<close> the last slot is read and a \<^verbatim>\<open>nil\<close> slot is
  returned as \<^verbatim>\<open>nil\<close>; otherwise the slot before \<open>ptr\<close> is read and always copied
  into a fresh slice.
\<close>

definition GetRecent :: "buff \<Rightarrow> panic + bytes" where
  "GetRecent b =
     (if ptr b = 0 then
        (case slot_at (data b) (size_buff b - 1) of
           Inl p \<Rightarrow> Inl p
         | Inr d \<Rightarrow>
             if d = NilSlice then Inr NilSlice
             else Inr (copy_bytes (make_bytes (len d)) d))
      else
        (case slot_at (data b) (ptr b - 1) of
           Inl p \<Rightarrow> Inl p
         | Inr d \<Rightarrow> Inr (copy_bytes (make_bytes (len d)) d)))"

text \<open>
  The two loops of \<^verbatim>\<open>GetOldest\<close> have the same body:
  \<^verbatim>\<open>for i := lo; i < hi; i++\<close>, returning a copy of the first slot that is not
  \<^verbatim>\<open>nil\<close>. \<open>Inr None\<close> means the loop ran to its end without returning.
\<close>

function oldest_loop :: "bytes list \<Rightarrow> int \<Rightarrow> int \<Rightarrow> panic + bytes option" where
  "oldest_loop ds i hi =
     (if i < hi then
        (case slot_at ds i of
           Inl p \<Rightarrow> Inl p
         | Inr d \<Rightarrow>
             if d \<noteq> NilSlice then Inr (Some (copy_bytes (make_bytes (len d)) d))
             else oldest_loop ds (i + 1) hi)
      else Inr None)"
  by pat_completeness auto
termination
  by (relation "measure (\<lambda>(ds, i, hi). nat (hi - i))") auto

declare oldest_loop.simps [simp del]

definition GetOldest :: "buff \<Rightarrow> panic + bytes" where
  "GetOldest b =
     (case oldest_loop (data b) (ptr b) (size_buff b) of
        Inl p \<Rightarrow> Inl p
      | Inr (Some r) \<Rightarrow> Inr r
      | Inr None \<Rightarrow>
          (case oldest_loop (data b) 0 (ptr b) of
             Inl p \<Rightarrow> Inl p
           | Inr (Some r) \<Rightarrow> Inr r
           | Inr None \<Rightarrow> Inr NilSlice))"

text \<open>
  The loops of \<^verbatim>\<open>testRecent\<close>: \<^verbatim>\<open>for i := hi; i >= lo; i--\<close>. The result \<open>Inr True\<close>
  is the early \<^verbatim>\<open>return true\<close>, \<open>Inr False\<close> the end of the loop.
\<close>

function scan_left :: "bytes list \<Rightarrow> bytes \<Rightarrow> int \<Rightarrow> int \<Rightarrow> panic + bool" where
  "scan_left ds key i lo =
     (if i \<ge> lo then
        (case slot_at ds i of
           Inl p \<Rightarrow> Inl p
         | Inr d \<Rightarrow> if bytes_Equal key d then Inr True else scan_left ds key (i - 1) lo)
      else Inr False)"
  by pat_completeness auto
termination
  by (relation "measure (\<lambda>(ds, key, i, lo). nat (i + 1 - lo))") auto

declare scan_left.simps [simp del]

definition testRecent :: "buff \<Rightarrow> bytes \<Rightarrow> panic + bool" where
  "testRecent b key =
     (case scan_left (data b) key (ptr b - 1) 0 of
        Inl p \<Rightarrow> Inl p
      | Inr True \<Rightarrow> Inr True
      | Inr False \<Rightarrow> scan_left (data b) key (size_buff b - 1) (ptr b))"

text \<open>The loops of \<^verbatim>\<open>testOldest\<close>: \<^verbatim>\<open>for i := lo; i < hi; i++\<close>.\<close>

function scan_right :: "bytes list \<Rightarrow> bytes \<Rightarrow> int \<Rightarrow> int \<Rightarrow> panic + bool" where
  "scan_right ds key i hi =
     (if i < hi then
        (case slot_at ds i of
           Inl p \<Rightarrow> Inl p
         | Inr d \<Rightarrow> if bytes_Equal key d then Inr True else scan_right ds key (i + 1) hi)
      else Inr False)"
  by pat_completeness auto
termination
  by (relation "measure (\<lambda>(ds, key, i, hi). nat (hi - i))") auto

declare scan_right.simps [simp del]

definition testOldest :: "buff \<Rightarrow> bytes \<Rightarrow> panic + bool" where
  "testOldest b key =
     (case scan_right (data b) key (ptr b) (size_buff b) of
        Inl p \<Rightarrow> Inl p
      | Inr True \<Rightarrow> Inr True
      | Inr False \<Rightarrow> scan_right (data b) key 0 (ptr b))"

definition Test :: "buff \<Rightarrow> bytes \<Rightarrow> panic + bool" where
  "Test b key = (if mode b = Oldest then testOldest b key else testRecent b key)"

subsection \<open>Sequences of calls\<close>

text \<open>
  A caller's history on one buffer is a list of calls. The three readers leave the
  buffer as it is; a panic ends the run.
\<close>

datatype op = OpAdd bytes | OpReset | OpTest bytes | OpGetRecent | OpGetOldest

fun exec :: "op \<Rightarrow> buff \<Rightarrow> panic + buff" where
  "exec (OpAdd d) b = Add b d"
| "exec OpReset b = Reset b"
| "exec (OpTest k) b = (case Test b k of Inl p \<Rightarrow> Inl p | Inr _ \<Rightarrow> Inr b)"
| "exec OpGetRecent b = (case GetRecent b of Inl p \<Rightarrow> Inl p | Inr _ \<Rightarrow> Inr b)"
| "exec OpGetOldest b = (case GetOldest b of Inl p \<Rightarrow> Inl p | Inr _ \<Rightarrow> Inr b)"

fun run :: "buff \<Rightarrow> op list \<Rightarrow> panic + buff" where
  "run b [] = Inr b"
| "run b (x # xs) = (case exec x b of Inl p \<Rightarrow> Inl p | Inr b' \<Rightarrow> run b' xs)"

text \<open>
  The slices handed to \<^verbatim>\<open>Add\<close> since the last \<^verbatim>\<open>Reset\<close> (or since the start), in
  the order of the calls; \<open>acc\<close> holds those seen so far.
\<close>

fun inserted :: "bytes list \<Rightarrow> op list \<Rightarrow> bytes list" where
  "inserted acc [] = acc"
| "inserted acc (OpAdd d # xs) = inserted (acc @ [d]) xs"
| "inserted acc (OpReset # xs) = inserted [] xs"
| "inserted acc (OpTest k # xs) = inserted acc xs"
| "inserted acc (OpGetRecent # xs) = inserted acc xs"
| "inserted acc (OpGetOldest # xs) = inserted acc xs"

definition since_reset :: "op list \<Rightarrow> bytes list" where
  "since_reset xs = inserted [] xs"

text \<open>
  The slots in the order of the scan of \<^verbatim>\<open>testOldest\<close> and \<^verbatim>\<open>GetOldest\<close>: from
  \<open>ptr\<close> to the end, then from 0 to \<open>ptr - 1\<close>.
\<close>

definition chrono :: "buff \<Rightarrow> bytes list" where
  "chrono b = drop (nat (ptr b)) (data b) @ take (nat (ptr b)) (data b)"

text \<open>
  What a buffer of \<open>n\<close> slots should hold after the insertions \<open>rs\<close> on an empty
  buffer: the last \<open>n\<close> entries of \<open>rs\<close>, preceded by \<^verbatim>\<open>nil\<close> slots while fewer than
  \<open>n\<close> were made.
\<close>

definition window :: "nat \<Rightarrow> bytes list \<Rightarrow> bytes list" where
  "window n rs = drop (length rs) (replicate n NilSlice @ rs)"

text \<open>The shape every buffer made by \<^verbatim>\<open>Init\<close> keeps.\<close>

definition well_formed :: "buff \<Rightarrow> bool" where
  "well_formed b \<longleftrightarrow> 1 \<le> size_buff b \<and> 0 \<le> ptr b \<and> ptr b < size_buff b
            \<and> length (data b) = nat (size_buff b)"

section \<open>The loops and the readers on a well-formed buffer\<close>

lemma copy_make: "copy_bytes (make_bytes (len d)) d = Slice (contents d)"
  by (simp add: copy_bytes_def make_bytes_def len_def)

lemma scan_right_eq:
  "0 \<le> i \<Longrightarrow> hi \<le> int (length ds) \<Longrightarrow>
   scan_right ds key i hi = Inr (\<exists>j. i \<le> j \<and> j < hi \<and> contents (ds ! nat j) = contents key)"
proof (induction ds key i hi rule: scan_right.induct)
  case (1 ds key i hi)
  show ?case
  proof (cases "i < hi")
    case False
    then show ?thesis by (subst scan_right.simps) auto
  next
    case True
    with "1.prems" have at: "slot_at ds i = Inr (ds ! nat i)"
      by (simp add: slot_at_def)
    show ?thesis
    proof (cases "bytes_Equal key (ds ! nat i)")
      case True
      with \<open>i < hi\<close> at show ?thesis
        by (subst scan_right.simps) (auto simp: bytes_Equal_def)
    next
      case ne: False
      have "scan_right ds key (i + 1) hi =
            Inr (\<exists>j. i + 1 \<le> j \<and> j < hi \<and> contents (ds ! nat j) = contents key)"
        using "1.IH"[OF True at ne] "1.prems" by simp
      moreover have "(\<exists>j. i + 1 \<le> j \<and> j < hi \<and> contents (ds ! nat j) = contents key)
          = (\<exists>j. i \<le> j \<and> j < hi \<and> contents (ds ! nat j) = contents key)"
      proof -
        have "j \<noteq> i" if "contents (ds ! nat j) = contents key" for j
          using that ne by (auto simp: bytes_Equal_def)
        then show ?thesis
          by (metis less_le zless_imp_add1_zle zle_add1_eq_le order_less_imp_le not_less add1_zle_eq)
      qed
      ultimately show ?thesis using True at ne
        by (subst scan_right.simps) simp
    qed
  qed
qed


lemma scan_left_eq:
  "- 1 \<le> i \<Longrightarrow> i < int (length ds) \<Longrightarrow> 0 \<le> lo \<Longrightarrow>
   scan_left ds key i lo = Inr (\<exists>j. lo \<le> j \<and> j \<le> i \<and> contents (ds ! nat j) = contents key)"
proof (induction ds key i lo rule: scan_left.induct)
  case (1 ds key i lo)
  show ?case
  proof (cases "lo \<le> i")
    case False
    then show ?thesis by (subst scan_left.simps) auto
  next
    case True
    with "1.prems" have at: "slot_at ds i = Inr (ds ! nat i)"
      by (simp add: slot_at_def)
    show ?thesis
    proof (cases "bytes_Equal key (ds ! nat i)")
      case True
      with \<open>lo \<le> i\<close> at show ?thesis
        by (subst scan_left.simps) (auto simp: bytes_Equal_def)
    next
      case ne: False
      have "scan_left ds key (i - 1) lo =
            Inr (\<exists>j. lo \<le> j \<and> j \<le> i - 1 \<and> contents (ds ! nat j) = contents key)"
        using "1.IH"[OF True at ne] "1.prems" True by simp
      moreover have "(\<exists>j. lo \<le> j \<and> j \<le> i - 1 \<and> contents (ds ! nat j) = contents key)
          = (\<exists>j. lo \<le> j \<and> j \<le> i \<and> contents (ds ! nat j) = contents key)"
      proof -
        have "j \<noteq> i" if "contents (ds ! nat j) = contents key" for j
          using that ne by (auto simp: bytes_Equal_def)
        then have "j \<le> i - 1 \<longleftrightarrow> j \<le> i" if "contents (ds ! nat j) = contents key" for j
          using that [THEN \<open>\<And>j. contents (ds ! nat j) = contents key \<Longrightarrow> j \<noteq> i\<close>] by arith
        then show ?thesis by blast
      qed
      ultimately show ?thesis using True at ne
        by (subst scan_left.simps) simp
    qed
  qed
qed

lemma oldest_loop_eq:
  "0 \<le> i \<Longrightarrow> hi \<le> int (length ds) \<Longrightarrow>
   oldest_loop ds i hi =
     Inr (find (\<lambda>d. d \<noteq> NilSlice) (take (nat (hi - i)) (drop (nat i) ds)))"
proof (induction ds i hi rule: oldest_loop.induct)
  case (1 ds i hi)
  show ?case
  proof (cases "i < hi")
    case False
    then show ?thesis by (subst oldest_loop.simps) auto
  next
    case True
    with "1.prems" have at: "slot_at ds i = Inr (ds ! nat i)"
      by (simp add: slot_at_def)
    from True "1.prems" have lt: "nat i < length ds" by simp
    from True have "nat (hi - i) = Suc (nat (hi - (i + 1)))" by simp
    then have unfold: "take (nat (hi - i)) (drop (nat i) ds)
        = ds ! nat i # take (nat (hi - (i + 1))) (drop (nat (i + 1)) ds)"
      using lt "1.prems" by (simp add: Cons_nth_drop_Suc [symmetric] nat_add_distrib)
    show ?thesis
    proof (cases "ds ! nat i = NilSlice")
      case nil: True
      have "oldest_loop ds (i + 1) hi =
            Inr (find (\<lambda>d. d \<noteq> NilSlice) (take (nat (hi - (i + 1))) (drop (nat (i + 1)) ds)))"
        using "1.IH"[OF True at] nil "1.prems" by simp
      then show ?thesis using True at nil unfold
        by (subst oldest_loop.simps) simp
    next
      case False
      then obtain xs where "ds ! nat i = Slice xs" by (cases "ds ! nat i") auto
      then show ?thesis using True at unfold
        by (subst oldest_loop.simps) (simp add: copy_make)
    qed
  qed
qed

lemma set_chrono: "set (chrono b) = set (data b)"
  unfolding chrono_def by (metis Un_commute append_take_drop_id set_append)

lemma length_chrono: "length (chrono b) = length (data b)"
  by (simp add: chrono_def)

lemma ex_index_set:
  "0 \<le> lo \<Longrightarrow> hi \<le> int (length ds) \<Longrightarrow>
   (\<exists>j. lo \<le> j \<and> j < hi \<and> P (ds ! nat j)) = (\<exists>d \<in> set (take (nat (hi - lo)) (drop (nat lo) ds)). P d)"
proof (rule iffI)
  assume a: "0 \<le> lo" "hi \<le> int (length ds)" "\<exists>j. lo \<le> j \<and> j < hi \<and> P (ds ! nat j)"
  then obtain j where j: "lo \<le> j" "j < hi" "P (ds ! nat j)" by blast
  let ?k = "nat (j - lo)"
  have "?k < length (take (nat (hi - lo)) (drop (nat lo) ds))" using a j by auto
  moreover have "take (nat (hi - lo)) (drop (nat lo) ds) ! ?k = ds ! nat j"
    using a j by (simp add: nat_diff_distrib nat_mono)
  ultimately show "\<exists>d \<in> set (take (nat (hi - lo)) (drop (nat lo) ds)). P d"
    using j(3) by (metis nth_mem)
next
  assume a: "0 \<le> lo" "hi \<le> int (length ds)"
     "\<exists>d \<in> set (take (nat (hi - lo)) (drop (nat lo) ds)). P d"
  then obtain k where k: "k < length (take (nat (hi - lo)) (drop (nat lo) ds))"
      "P (take (nat (hi - lo)) (drop (nat lo) ds) ! k)"
    by (metis in_set_conv_nth)
  from k(1) have "nat lo \<le> length ds" by auto
  with k have "P (ds ! (nat lo + k))" by simp
  moreover have "lo \<le> lo + int k" "lo + int k < hi" using k(1) a by auto
  moreover have "nat (lo + int k) = nat lo + k" using a by (simp add: nat_add_distrib)
  ultimately show "\<exists>j. lo \<le> j \<and> j < hi \<and> P (ds ! nat j)" by metis
qed

lemma testOldest_eq:
  assumes "well_formed b"
  shows "testOldest b key = Inr (\<exists>d \<in> set (data b). contents d = contents key)"
proof -
  let ?P = "\<lambda>d. contents d = contents key"
  from assms have bounds: "0 \<le> ptr b" "ptr b \<le> int (length (data b))"
      "size_buff b \<le> int (length (data b))" "size_buff b = int (length (data b))"
    by (auto simp: well_formed_def)
  have r1: "scan_right (data b) key (ptr b) (size_buff b) = Inr (\<exists>d \<in> set (drop (nat (ptr b)) (data b)). ?P d)"
    using bounds ex_index_set [of "ptr b" "size_buff b" "data b" ?P] by (simp add: scan_right_eq)
  have r2: "scan_right (data b) key 0 (ptr b) = Inr (\<exists>d \<in> set (take (nat (ptr b)) (data b)). ?P d)"
    using bounds ex_index_set [of 0 "ptr b" "data b" ?P] by (simp add: scan_right_eq)
  have "set (data b) = set (take (nat (ptr b)) (data b)) \<union> set (drop (nat (ptr b)) (data b))"
    by (metis append_take_drop_id set_append)
  then show ?thesis
    unfolding testOldest_def r1 r2 by (auto split: bool.splits)
qed

lemma testRecent_eq:
  assumes "well_formed b"
  shows "testRecent b key = Inr (\<exists>d \<in> set (data b). contents d = contents key)"
proof -
  let ?P = "\<lambda>d. contents d = contents key"
  from assms have bounds: "0 \<le> ptr b" "ptr b \<le> int (length (data b))"
      "size_buff b \<le> int (length (data b))" "size_buff b = int (length (data b))" "1 \<le> size_buff b"
    by (auto simp: well_formed_def)
  have le: "(j \<le> k - 1) = (j < k)" for j k :: int by arith
  have r1: "scan_left (data b) key (ptr b - 1) 0 = Inr (\<exists>d \<in> set (take (nat (ptr b)) (data b)). ?P d)"
    using bounds ex_index_set [of 0 "ptr b" "data b" ?P] by (simp add: scan_left_eq le)
  have r2: "scan_left (data b) key (size_buff b - 1) (ptr b) = Inr (\<exists>d \<in> set (drop (nat (ptr b)) (data b)). ?P d)"
    using bounds ex_index_set [of "ptr b" "size_buff b" "data b" ?P] by (simp add: scan_left_eq le)
  have "set (data b) = set (take (nat (ptr b)) (data b)) \<union> set (drop (nat (ptr b)) (data b))"
    by (metis append_take_drop_id set_append)
  then show ?thesis
    unfolding testRecent_def r1 r2 by (auto split: bool.splits)
qed

lemma Test_eq:
  "well_formed b \<Longrightarrow> Test b key = Inr (\<exists>d \<in> set (chrono b). contents d = contents key)"
  by (simp add: Test_def testOldest_eq testRecent_eq set_chrono)

lemma find_app:
  "find P (xs @ ys) = (case find P xs of None \<Rightarrow> find P ys | Some x \<Rightarrow> Some x)"
  by (induction xs) auto

lemma GetOldest_eq:
  assumes "well_formed b"
  shows "GetOldest b =
     Inr (case find (\<lambda>d. d \<noteq> NilSlice) (chrono b) of None \<Rightarrow> NilSlice | Some d \<Rightarrow> d)"
proof -
  from assms have bounds: "0 \<le> ptr b" "ptr b \<le> int (length (data b))"
      "size_buff b \<le> int (length (data b))" "size_buff b = int (length (data b))"
    by (auto simp: well_formed_def)
  have r1: "oldest_loop (data b) (ptr b) (size_buff b) =
      Inr (find (\<lambda>d. d \<noteq> NilSlice) (drop (nat (ptr b)) (data b)))"
    using bounds by (simp add: oldest_loop_eq)
  have r2: "oldest_loop (data b) 0 (ptr b) =
      Inr (find (\<lambda>d. d \<noteq> NilSlice) (take (nat (ptr b)) (data b)))"
    using bounds by (simp add: oldest_loop_eq)
  show ?thesis
    unfolding GetOldest_def r1 r2 chrono_def
    by (simp add: find_app split: option.splits)
qed

lemma GetRecent_eq:
  assumes "well_formed b"
  shows "GetRecent b =
     Inr (if ptr b = 0 \<and> last (chrono b) = NilSlice then NilSlice
          else Slice (contents (last (chrono b))))"
proof (cases "ptr b = 0")
  case True
  with assms have "chrono b = data b" "data b \<noteq> []" "size_buff b = int (length (data b))"
    by (auto simp: chrono_def well_formed_def)
  moreover have "nat (int (length (data b)) - 1) = length (data b) - 1"
    by arith
  ultimately have "slot_at (data b) (size_buff b - 1) = Inr (last (data b))"
    by (simp add: slot_at_def last_conv_nth)
  moreover note \<open>chrono b = data b\<close>
  ultimately show ?thesis using True
    by (simp add: GetRecent_def copy_make)
next
  case False
  with assms have p: "0 < ptr b" "ptr b < int (length (data b))"
    by (auto simp: well_formed_def)
  then have ne: "take (nat (ptr b)) (data b) \<noteq> []" by auto
  have "last (chrono b) = last (take (nat (ptr b)) (data b))"
    using ne by (simp add: chrono_def)
  also have "\<dots> = data b ! nat (ptr b - 1)"
    using p ne by (simp add: last_conv_nth nat_diff_distrib)
  finally have "slot_at (data b) (ptr b - 1) = Inr (last (chrono b))"
    using p by (simp add: slot_at_def)
  then show ?thesis using False
    by (simp add: GetRecent_def copy_make)
qed

section \<open>The writers and whole histories\<close>

lemma Init_well_formed:
  assumes "Init n m = Inr b"
  shows "well_formed b \<and> size_buff b = n \<and> mode b = m \<and> ptr b = 0
         \<and> data b = replicate (nat n) NilSlice \<and> 1 \<le> n \<and> (m = Recent \<or> m = Oldest)"
  using assms by (auto simp: Init_def well_formed_def Recent_def Oldest_def split: if_splits)

lemma length_window: "length (window n rs) = n"
  by (simp add: window_def)

lemma window_Nil: "window n [] = replicate n NilSlice"
  by (simp add: window_def)

lemma window_snoc: "0 < n \<Longrightarrow> window n (rs @ [d]) = tl (window n rs) @ [d]"
proof -
  assume "0 < n"
  have "window n (rs @ [d]) = drop (Suc (length rs)) ((replicate n NilSlice @ rs) @ [d])"
    by (simp add: window_def)
  also have "\<dots> = drop (Suc (length rs)) (replicate n NilSlice @ rs) @ [d]"
    using \<open>0 < n\<close> by simp
  also have "drop (Suc (length rs)) (replicate n NilSlice @ rs) = tl (window n rs)"
    by (simp only: window_def drop_Suc tl_drop)
  finally show ?thesis .
qed

lemma Add_chrono:
  assumes "well_formed b"
  shows "\<exists>b'. Add b d = Inr b' \<and> well_formed b' \<and> size_buff b' = size_buff b \<and> mode b' = mode b
           \<and> ptr b' = (if ptr b + 1 = size_buff b then 0 else ptr b + 1)
           \<and> chrono b' = tl (chrono b) @ [d]"
proof -
  let ?p = "nat (ptr b)"
  let ?b' = "b\<lparr>ptr := (if ptr b + 1 = size_buff b then 0 else ptr b + 1), data := (data b)[?p := d]\<rparr>"
  from assms have p: "0 \<le> ptr b" "?p < length (data b)" "size_buff b = int (length (data b))"
    by (auto simp: well_formed_def)
  then have add: "Add b d = Inr ?b'"
    by (simp add: Add_def set_slot_def Let_def)
  have wf: "well_formed ?b'"
    using assms by (auto simp: well_formed_def)
  have old: "chrono b = data b ! ?p # drop (Suc ?p) (data b) @ take ?p (data b)"
    using p by (simp add: chrono_def Cons_nth_drop_Suc)
  have new: "chrono ?b' = drop (Suc ?p) (data b) @ take ?p (data b) @ [d]"
  proof (cases "ptr b + 1 = size_buff b")
    case True
    with p have "Suc ?p = length (data b)" by auto
    then have "(data b)[?p := d] = take ?p (data b) @ [d]"
      by (metis p(2) upd_conv_take_nth_drop drop_all le_refl)
    with True \<open>Suc ?p = length (data b)\<close> show ?thesis by (simp add: chrono_def)
  next
    case False
    have "nat (ptr b + 1) = Suc ?p" using p by simp
    with False p show ?thesis
      by (simp add: chrono_def take_Suc_conv_app_nth)
  qed
  show ?thesis using add wf old new by (intro exI [of _ ?b']) simp
qed

lemma Reset_chrono:
  assumes "well_formed b"
  shows "\<exists>b'. Reset b = Inr b' \<and> well_formed b' \<and> size_buff b' = size_buff b \<and> mode b' = mode b
           \<and> ptr b' = 0 \<and> data b' = replicate (nat (size_buff b)) NilSlice
           \<and> chrono b' = replicate (nat (size_buff b)) NilSlice"
  using assms by (auto simp: Reset_def make_slots_def well_formed_def chrono_def)

lemma exec_reader:
  assumes "well_formed b" "x = OpTest k \<or> x = OpGetRecent \<or> x = OpGetOldest"
  shows "exec x b = Inr b"
  using assms by (auto simp: Test_eq GetRecent_eq GetOldest_eq)

lemma run_window:
  assumes "well_formed b" "chrono b = window (nat (size_buff b)) acc"
  shows "\<exists>b'. run b xs = Inr b' \<and> well_formed b' \<and> size_buff b' = size_buff b \<and> mode b' = mode b
           \<and> chrono b' = window (nat (size_buff b)) (inserted acc xs)"
  using assms
proof (induction xs arbitrary: b acc)
  case Nil
  then show ?case by simp
next
  case (Cons x xs)
  from Cons.prems(1) have pos: "0 < nat (size_buff b)" by (simp add: well_formed_def)
  show ?case
  proof (cases x)
    case (OpAdd d)
    from Add_chrono [OF Cons.prems(1), of d] obtain b1 where
      b1: "Add b d = Inr b1" "well_formed b1" "size_buff b1 = size_buff b" "mode b1 = mode b"
          "chrono b1 = tl (chrono b) @ [d]" by blast
    then have "chrono b1 = window (nat (size_buff b1)) (acc @ [d])"
      using Cons.prems(2) pos by (simp add: window_snoc)
    from Cons.IH [OF b1(2) this] b1 OpAdd show ?thesis by simp
  next
    case OpReset
    from Reset_chrono [OF Cons.prems(1)] obtain b1 where
      b1: "Reset b = Inr b1" "well_formed b1" "size_buff b1 = size_buff b" "mode b1 = mode b"
          "chrono b1 = replicate (nat (size_buff b)) NilSlice" by blast
    then have "chrono b1 = window (nat (size_buff b1)) []"
      by (simp add: window_Nil)
    from Cons.IH [OF b1(2) this] b1 OpReset show ?thesis by simp
  next
    case (OpTest k)
    with exec_reader [OF Cons.prems(1), of x k] Cons.IH [OF Cons.prems] show ?thesis by simp
  next
    case OpGetRecent
    with exec_reader [OF Cons.prems(1), of x] Cons.IH [OF Cons.prems] show ?thesis by simp
  next
    case OpGetOldest
    with exec_reader [OF Cons.prems(1), of x] Cons.IH [OF Cons.prems] show ?thesis by simp
  qed
qed

lemma run_Init:
  assumes "Init n m = Inr b0"
  shows "\<exists>b. run b0 xs = Inr b \<and> well_formed b \<and> size_buff b = n \<and> mode b = m
           \<and> chrono b = window (nat n) (since_reset xs)"
proof -
  from Init_well_formed [OF assms] have
    i: "well_formed b0" "size_buff b0 = n" "mode b0 = m" "ptr b0 = 0" "data b0 = replicate (nat n) NilSlice"
    by auto
  then have "chrono b0 = window (nat (size_buff b0)) []"
    by (simp add: chrono_def window_Nil)
  from run_window [OF i(1) this, of xs] i show ?thesis
    by (simp add: since_reset_def)
qed

lemma Test_window:
  assumes "Init n m = Inr b0" "run b0 xs = Inr b"
  shows "Test b key = Inr (\<exists>d \<in> set (window (nat n) (since_reset xs)). contents d = contents key)"
    and "well_formed b" and "chrono b = window (nat n) (since_reset xs)" and "size_buff b = n"
    and "mode b = m" and "0 < nat n"
proof -
  from run_Init [OF assms(1), of xs] assms(2) have
    b: "well_formed b" "size_buff b = n" "mode b = m" "chrono b = window (nat n) (since_reset xs)"
    by auto
  show "well_formed b" "chrono b = window (nat n) (since_reset xs)" "size_buff b = n" "mode b = m"
    by (rule b)+
  show "0 < nat n" using b(1,2) by (simp add: well_formed_def)
  show "Test b key = Inr (\<exists>d \<in> set (window (nat n) (since_reset xs)). contents d = contents key)"
    using b by (simp add: Test_eq)
qed

lemma nil_matches:
  "0 < k \<Longrightarrow> (\<exists>d \<in> set (replicate k NilSlice). contents d = contents key) = (len key = 0)"
proof -
  assume "0 < k"
  then have "(\<exists>d \<in> set (replicate k NilSlice). contents d = contents key) = ([] = contents key)"
    by simp
  also have "\<dots> = (len key = 0)"
    unfolding len_def length_0_conv by (rule eq_commute)
  finally show ?thesis .
qed

lemma find_replicate_nil: "find (\<lambda>d. d \<noteq> NilSlice) (replicate k NilSlice) = None"
  by (induction k) auto

lemma window_split:
  "window n rs = replicate (n - length rs) NilSlice @ drop (length rs - n) rs"
  by (simp add: window_def)

lemma ex_window:
  "(\<exists>d \<in> set (window n rs). contents d = contents key)
   = ((\<exists>d \<in> set (drop (length rs - n) rs). contents d = contents key)
      \<or> (length rs < n \<and> len key = 0))"
proof (cases "length rs < n")
  case True
  then have "0 < n - length rs" by simp
  note nil = nil_matches [OF this, of key]
  have "(\<exists>d \<in> set (window n rs). contents d = contents key)
      = ((\<exists>d \<in> set (replicate (n - length rs) NilSlice). contents d = contents key)
         \<or> (\<exists>d \<in> set (drop (length rs - n) rs). contents d = contents key))"
    by (simp only: window_split set_append bex_Un)
  also have "\<dots> = (len key = 0 \<or> (\<exists>d \<in> set (drop (length rs - n) rs). contents d = contents key))"
    by (simp only: nil)
  also have "\<dots> = ((\<exists>d \<in> set (drop (length rs - n) rs). contents d = contents key)
      \<or> (length rs < n \<and> len key = 0))"
    using True by (simp only: simp_thms) (rule disj_commute)
  finally show ?thesis .
next
  case False
  then show ?thesis unfolding window_split by simp
qed

lemma recent_slot:
  assumes "well_formed b"
  shows "slot_at (data b) (if ptr b = 0 then size_buff b - 1 else ptr b - 1) = Inr (last (chrono b))"
proof (cases "ptr b = 0")
  case True
  with assms have d: "chrono b = data b" "data b \<noteq> []" "size_buff b = int (length (data b))"
    by (auto simp: chrono_def well_formed_def)
  have "nat (int (length (data b)) - 1) = length (data b) - 1"
    by arith
  with d True show ?thesis
    by (simp add: slot_at_def last_conv_nth)
next
  case False
  with assms have p: "0 < ptr b" "ptr b < int (length (data b))"
    by (auto simp: well_formed_def)
  then have ne: "take (nat (ptr b)) (data b) \<noteq> []" by auto
  have "last (chrono b) = last (take (nat (ptr b)) (data b))"
    using ne by (simp add: chrono_def)
  also have "\<dots> = data b ! nat (ptr b - 1)"
    using p ne by (simp add: last_conv_nth nat_diff_distrib)
  finally show ?thesis
    using p False by (simp add: slot_at_def)
qed

lemma last_window:
  assumes "rs \<noteq> []" "0 < n"
  shows "last (window n rs) = last rs"
proof -
  from assms(2) have "length rs < length (replicate n NilSlice @ rs)" by simp
  then have "last (window n rs) = last (replicate n NilSlice @ rs)"
    unfolding window_def by (rule last_drop)
  also have "\<dots> = last rs" using assms(1) by simp
  finally show ?thesis .
qed

lemma window_full: "length rs = n \<Longrightarrow> window n (pre @ r0 # rs) = rs"
  by (simp add: window_def)

lemma find_window_any:
  "find (\<lambda>d. d \<noteq> NilSlice) (window n rs) = find (\<lambda>d. d \<noteq> NilSlice) (drop (length rs - n) rs)"
  by (simp add: window_split find_app find_replicate_nil)

section \<open>The claims\<close>

text \<open>
  In the theorems below a buffer is reached from \<^verbatim>\<open>Init\<close> by a history \<open>xs\<close> of
  calls: \<open>Init n m = Inr b0\<close> and \<open>run b0 xs = Inr b\<close>. By \<open>run_Init\<close> every
  history runs to its end without a panic, so the second premise only names the state.
\<close>

subsection \<open>Construction\<close>

text \<open>
  Claim C7. \<^verbatim>\<open>Init\<close> returns \<open>errSize\<close> exactly when the size is below one (so for
  0 and -1, whatever the mode); it returns \<open>errMode\<close> exactly when the size is at
  least one and the mode is neither \<open>Recent\<close> nor \<open>Oldest\<close>; with a size of at least
  one and one of the two modes it returns a buffer of that size and mode whose slots are
  all \<^verbatim>\<open>nil\<close> and whose \<open>ptr\<close> is 0. The two errors are different values, and no
  erroneous input yields a buffer.
\<close>

theorem Init_validation:
  "(Init n m = Inl errSize \<longleftrightarrow> n < 1)
   \<and> (Init n m = Inl errMode \<longleftrightarrow> 1 \<le> n \<and> m \<noteq> Recent \<and> m \<noteq> Oldest)
   \<and> (1 \<le> n \<and> (m = Recent \<or> m = Oldest) \<longrightarrow>
        (\<exists>b. Init n m = Inr b \<and> size_buff b = n \<and> mode b = m \<and> ptr b = 0
             \<and> data b = replicate (nat n) NilSlice))
   \<and> Init 0 m = Inl errSize \<and> Init (- 1) m = Inl errSize \<and> errSize \<noteq> errMode"
  by (auto simp: Init_def Recent_def Oldest_def)

theorem Init_validation_witness:
  "Init 0 2 = Inl errSize \<and> Init 1 2 = Inl errMode
   \<and> (\<exists>b. Init 3 Oldest = Inr b \<and> size_buff b = 3 \<and> mode b = Oldest \<and> ptr b = 0
          \<and> data b = [NilSlice, NilSlice, NilSlice])"
  using Init_validation [of 0 2] Init_validation [of 1 2] Init_validation [of 3 Oldest]
  by (simp add: Recent_def Oldest_def eval_nat_numeral)

subsection \<open>The cursor\<close>

text \<open>
  Claim C8. A buffer made by \<^verbatim>\<open>Init\<close> starts with \<open>ptr = 0\<close>, and after any history
  of \<^verbatim>\<open>Add\<close>, \<^verbatim>\<open>Reset\<close>, \<^verbatim>\<open>Test\<close>, \<^verbatim>\<open>GetRecent\<close> and \<^verbatim>\<open>GetOldest\<close> calls the
  history has run without a panic and \<open>0 \<le> ptr < size\<close> holds. In that state
  \<^verbatim>\<open>Add\<close> moves \<open>ptr\<close> to \<open>(ptr + 1) mod size\<close>, \<^verbatim>\<open>Reset\<close> sets it to 0, and the
  three readers return and leave the buffer as it is.
\<close>

theorem cursor_in_range:
  assumes "Init n m = Inr b0"
  shows "ptr b0 = 0
     \<and> (\<exists>b. run b0 xs = Inr b \<and> 0 \<le> ptr b \<and> ptr b < size_buff b \<and> size_buff b = n
          \<and> (\<forall>d. \<exists>b'. Add b d = Inr b' \<and> ptr b' = (ptr b + 1) mod size_buff b)
          \<and> (\<exists>b'. Reset b = Inr b' \<and> ptr b' = 0)
          \<and> (\<forall>k. exec (OpTest k) b = Inr b)
          \<and> exec OpGetRecent b = Inr b \<and> exec OpGetOldest b = Inr b)"
proof -
  from run_Init [OF assms, of xs] obtain b where
    b: "run b0 xs = Inr b" "well_formed b" "size_buff b = n" by blast
  from b(2) have rng: "0 \<le> ptr b" "ptr b < size_buff b" by (auto simp: well_formed_def)
  have "\<exists>b'. Add b d = Inr b' \<and> ptr b' = (ptr b + 1) mod size_buff b" for d
  proof -
    from Add_chrono [OF b(2), of d] obtain b' where
      "Add b d = Inr b'" "ptr b' = (if ptr b + 1 = size_buff b then 0 else ptr b + 1)" by blast
    moreover have "(if ptr b + 1 = size_buff b then 0 else ptr b + 1) = (ptr b + 1) mod size_buff b"
      using rng by auto
    ultimately show ?thesis by simp
  qed
  moreover from Reset_chrono [OF b(2)] have "\<exists>b'. Reset b = Inr b' \<and> ptr b' = 0" by blast
  moreover have "exec (OpTest k) b = Inr b" for k using exec_reader [OF b(2)] by blast
  moreover have "exec OpGetRecent b = Inr b" "exec OpGetOldest b = Inr b"
    using exec_reader [OF b(2)] by blast+
  moreover have "ptr b0 = 0" using Init_well_formed [OF assms] by simp
  ultimately show ?thesis using b rng by blast
qed

theorem cursor_in_range_witness:
  "Init 2 Recent = Inr \<lparr>size_buff = 2, mode = 0, ptr = 0, data = [NilSlice, NilSlice]\<rparr>
   \<and> run \<lparr>size_buff = 2, mode = 0, ptr = 0, data = [NilSlice, NilSlice]\<rparr>
        [OpAdd (Slice [1]), OpTest (Slice [1]), OpAdd (Slice [2]), OpGetOldest, OpAdd (Slice [3])]
      = Inr \<lparr>size_buff = 2, mode = 0, ptr = 1, data = [Slice [3], Slice [2]]\<rparr>
   \<and> (\<exists>b. run \<lparr>size_buff = 2, mode = 0, ptr = 0, data = [NilSlice, NilSlice]\<rparr>
        [OpAdd (Slice [1]), OpTest (Slice [1]), OpAdd (Slice [2]), OpGetOldest, OpAdd (Slice [3])]
      = Inr b \<and> 0 \<le> ptr b \<and> ptr b < size_buff b)"
proof -
  let ?init = "\<lparr>size_buff = 2, mode = 0, ptr = 0, data = [NilSlice, NilSlice]\<rparr>"
  let ?xs = "[OpAdd (Slice [1]), OpTest (Slice [1]), OpAdd (Slice [2]), OpGetOldest, OpAdd (Slice [3])]"
  have h: "Init 2 Recent = Inr ?init"
    by code_simp
  have r: "run ?init ?xs = Inr \<lparr>size_buff = 2, mode = 0, ptr = 1, data = [Slice [3], Slice [2]]\<rparr>"
    by code_simp
  from cursor_in_range [OF h, of ?xs] have
    "\<exists>b. run ?init ?xs = Inr b \<and> 0 \<le> ptr b \<and> ptr b < size_buff b" by blast
  with h r show ?thesis by blast
qed

subsection \<open>Empty slots and the membership test\<close>

text \<open>
  Claim C1. A slot that was never written, or that \<^verbatim>\<open>Reset\<close> cleared, should match no
  key, the zero-length key included. The code does not keep to this. An empty slot holds
  \<^verbatim>\<open>nil\<close>, and \<^verbatim>\<open>testRecent\<close> and \<^verbatim>\<open>testOldest\<close> hand every slot to
  \<^verbatim>\<open>bytes.Equal\<close>, which takes \<^verbatim>\<open>nil\<close> for the empty byte sequence; unlike
  \<^verbatim>\<open>GetRecent\<close> and \<^verbatim>\<open>GetOldest\<close> they have no check for \<^verbatim>\<open>nil\<close>. On the buffer
  just made by \<^verbatim>\<open>Init(1, Recent)\<close>, to which nothing was added, \<^verbatim>\<open>Test\<close> of the
  zero-length slice returns true, while \<^verbatim>\<open>GetRecent\<close> and \<^verbatim>\<open>GetOldest\<close> on the same
  buffer return \<^verbatim>\<open>nil\<close>, that is, report it empty.
\<close>

theorem empty_key_in_fresh_buffer:
  "Init 1 Recent = Inr \<lparr>size_buff = 1, mode = 0, ptr = 0, data = [NilSlice]\<rparr>
   \<and> Test \<lparr>size_buff = 1, mode = 0, ptr = 0, data = [NilSlice]\<rparr> (Slice []) = Inr True
   \<and> GetRecent \<lparr>size_buff = 1, mode = 0, ptr = 0, data = [NilSlice]\<rparr> = Inr NilSlice
   \<and> GetOldest \<lparr>size_buff = 1, mode = 0, ptr = 0, data = [NilSlice]\<rparr> = Inr NilSlice"
  by code_simp

text \<open>
  The defect is confined to keys of length zero. For a key with at least one byte,
  \<^verbatim>\<open>Test\<close> returns true exactly when the key has the bytes of one of the last \<open>size\<close>
  slices inserted since the last \<^verbatim>\<open>Reset\<close>; with no insertion since then it returns
  false.
\<close>

lemma Test_nonempty_key:
  assumes "Init n m = Inr b0" "run b0 xs = Inr b" "len key \<noteq> 0"
  shows "Test b key =
           Inr (\<exists>d \<in> set (drop (length (since_reset xs) - nat n) (since_reset xs)).
                   contents d = contents key)"
    and "since_reset xs = [] \<Longrightarrow> Test b key = Inr False"
proof -
  show t: "Test b key =
           Inr (\<exists>d \<in> set (drop (length (since_reset xs) - nat n) (since_reset xs)).
                   contents d = contents key)"
    using assms(3) by (simp only: Test_window(1) [OF assms(1,2)] ex_window simp_thms)
  show "Test b key = Inr False" if "since_reset xs = []"
    by (simp add: t that)
qed

subsection \<open>Reset\<close>

text \<open>
  Claim C6. After \<^verbatim>\<open>Reset\<close> no record inserted before should be reported by \<^verbatim>\<open>Test\<close>,
  and \<^verbatim>\<open>GetRecent\<close> and \<^verbatim>\<open>GetOldest\<close> should return \<^verbatim>\<open>nil\<close>. The code breaks the
  first part for a zero-length record, by the defect of claim C1: after \<^verbatim>\<open>Add\<close> of the
  empty slice and \<^verbatim>\<open>Reset\<close>, every slot is \<^verbatim>\<open>nil\<close> again and both accessors return
  \<^verbatim>\<open>nil\<close>, yet \<^verbatim>\<open>Test\<close> of the empty slice returns true, because \<^verbatim>\<open>bytes.Equal\<close>
  matches it against the \<^verbatim>\<open>nil\<close> slot.
\<close>

theorem empty_key_after_Reset:
  "Init 1 Recent = Inr \<lparr>size_buff = 1, mode = 0, ptr = 0, data = [NilSlice]\<rparr>
   \<and> Add \<lparr>size_buff = 1, mode = 0, ptr = 0, data = [NilSlice]\<rparr> (Slice [])
      = Inr \<lparr>size_buff = 1, mode = 0, ptr = 0, data = [Slice []]\<rparr>
   \<and> Reset \<lparr>size_buff = 1, mode = 0, ptr = 0, data = [Slice []]\<rparr>
      = Inr \<lparr>size_buff = 1, mode = 0, ptr = 0, data = [NilSlice]\<rparr>
   \<and> Test \<lparr>size_buff = 1, mode = 0, ptr = 0, data = [NilSlice]\<rparr> (Slice []) = Inr True
   \<and> GetRecent \<lparr>size_buff = 1, mode = 0, ptr = 0, data = [NilSlice]\<rparr> = Inr NilSlice
   \<and> GetOldest \<lparr>size_buff = 1, mode = 0, ptr = 0, data = [NilSlice]\<rparr> = Inr NilSlice"
  by code_simp

text \<open>
  The rest of the claim holds in every state reached from \<^verbatim>\<open>Init\<close>: \<^verbatim>\<open>Reset\<close>
  returns and leaves a buffer of the same size and mode with \<open>ptr = 0\<close> and every slot
  \<^verbatim>\<open>nil\<close>; on it \<^verbatim>\<open>GetRecent\<close> and \<^verbatim>\<open>GetOldest\<close> return \<^verbatim>\<open>nil\<close>, and \<^verbatim>\<open>Test\<close>
  returns false for every key with at least one byte.
\<close>

lemma Reset_state:
  assumes "Init n m = Inr b0" "run b0 xs = Inr b"
  shows "\<exists>b'. Reset b = Inr b' \<and> ptr b' = 0 \<and> data b' = replicate (nat n) NilSlice
           \<and> size_buff b' = n \<and> mode b' = m
           \<and> GetRecent b' = Inr NilSlice \<and> GetOldest b' = Inr NilSlice
           \<and> (\<forall>x. len x \<noteq> 0 \<longrightarrow> Test b' x = Inr False)"
proof -
  note b = Test_window(2,4,5,6) [OF assms]
  from Reset_chrono [OF b(1)] obtain b' where
    b': "Reset b = Inr b'" "well_formed b'" "size_buff b' = size_buff b" "mode b' = mode b"
        "ptr b' = 0" "data b' = replicate (nat (size_buff b)) NilSlice"
        "chrono b' = replicate (nat (size_buff b)) NilSlice" by blast
  have c: "chrono b' = replicate (nat n) NilSlice" using b'(7) b(2) by simp
  have "last (replicate (nat n) NilSlice) = NilSlice"
    using b(4) by simp
  then have r: "GetRecent b' = Inr NilSlice"
    by (simp add: GetRecent_eq [OF b'(2)] c b'(5))
  have o: "GetOldest b' = Inr NilSlice"
    by (simp add: GetOldest_eq [OF b'(2)] c find_replicate_nil)
  have t: "Test b' x = Inr False" if "len x \<noteq> 0" for x
    using that by (simp only: Test_eq [OF b'(2)] c nil_matches [OF b(4)])
  have "data b' = replicate (nat n) NilSlice" "size_buff b' = n" "mode b' = m"
    using b' b by simp_all
  with b'(1,5) r o t show ?thesis by blast
qed

subsection \<open>Wrap-around\<close>

text \<open>
  Claim C2. Take a buffer of size \<open>n\<close> made by \<^verbatim>\<open>Init\<close> in either mode, and any
  history in which the insertions since the last \<^verbatim>\<open>Reset\<close> end with a record \<open>r0\<close>
  followed by \<open>n\<close> further records, all \<open>n + 1\<close> of them different as byte
  sequences. Then \<^verbatim>\<open>Test\<close> returns false for \<open>r0\<close> and true for each of the \<open>n\<close>
  later records: the slots hold exactly those \<open>n\<close> records, the last of them
  written over the slot that held \<open>r0\<close>.
\<close>

theorem wrap_around_overwrite:
  assumes "Init n m = Inr b0" "run b0 xs = Inr b" "since_reset xs = pre @ r0 # rs"
    and "length rs = nat n" "distinct (map contents (r0 # rs))"
  shows "Test b r0 = Inr False \<and> (\<forall>r \<in> set rs. Test b r = Inr True) \<and> set (data b) = set rs"
proof -
  note b = Test_window(1,2,3) [OF assms(1,2)]
  have w: "window (nat n) (since_reset xs) = rs"
    by (simp only: assms(3) window_full [OF assms(4)])
  have t: "Test b key = Inr (\<exists>d \<in> set rs. contents d = contents key)" for key
    by (simp only: b(1) w)
  from assms(5) have "contents r0 \<notin> contents ` set rs" by simp
  then have "\<not> (\<exists>d \<in> set rs. contents d = contents r0)" by (metis imageI)
  then have "Test b r0 = Inr False" by (simp only: t)
  moreover have "Test b r = Inr True" if "r \<in> set rs" for r
  proof -
    from that have "\<exists>d \<in> set rs. contents d = contents r" by blast
    then show ?thesis by (simp only: t)
  qed
  moreover have "set (data b) = set rs"
    using set_chrono [of b] by (simp only: b(3) w)
  ultimately show ?thesis by blast
qed

theorem wrap_around_overwrite_witness:
  "Init 2 Oldest = Inr \<lparr>size_buff = 2, mode = 1, ptr = 0, data = [NilSlice, NilSlice]\<rparr>
   \<and> run \<lparr>size_buff = 2, mode = 1, ptr = 0, data = [NilSlice, NilSlice]\<rparr>
        [OpAdd (Slice [1]), OpAdd (Slice [2]), OpAdd (Slice [3])]
      = Inr \<lparr>size_buff = 2, mode = 1, ptr = 1, data = [Slice [3], Slice [2]]\<rparr>
   \<and> distinct (map contents [Slice [1], Slice [2], Slice [3]])
   \<and> Test \<lparr>size_buff = 2, mode = 1, ptr = 1, data = [Slice [3], Slice [2]]\<rparr> (Slice [1]) = Inr False
   \<and> Test \<lparr>size_buff = 2, mode = 1, ptr = 1, data = [Slice [3], Slice [2]]\<rparr> (Slice [2]) = Inr True
   \<and> Test \<lparr>size_buff = 2, mode = 1, ptr = 1, data = [Slice [3], Slice [2]]\<rparr> (Slice [3]) = Inr True"
proof -
  let ?init = "\<lparr>size_buff = 2, mode = 1, ptr = 0, data = [NilSlice, NilSlice]\<rparr>"
  let ?fin = "\<lparr>size_buff = 2, mode = 1, ptr = 1, data = [Slice [3], Slice [2]]\<rparr>"
  let ?xs = "[OpAdd (Slice [1]), OpAdd (Slice [2]), OpAdd (Slice [3])]"
  have h1: "Init 2 Oldest = Inr ?init" by code_simp
  have h2: "run ?init ?xs = Inr ?fin" by code_simp
  have h3: "since_reset ?xs = [] @ Slice [1] # [Slice [2], Slice [3]]"
    by (simp add: since_reset_def)
  have h4: "length [Slice [2], Slice [3]] = nat 2" by simp
  have h5: "distinct (map contents (Slice [1] # [Slice [2], Slice [3]]))" by simp
  from wrap_around_overwrite [OF h1 h2 h3 h4 h5]
  have "Test ?fin (Slice [1]) = Inr False" "Test ?fin (Slice [2]) = Inr True"
    "Test ?fin (Slice [3]) = Inr True" by simp_all
  with h1 h2 h5 show ?thesis by simp
qed

subsection \<open>The most recent and the oldest record\<close>

text \<open>
  Claim C3. After any history from \<^verbatim>\<open>Init\<close> with at least one \<^verbatim>\<open>Add\<close> since the last
  \<^verbatim>\<open>Reset\<close>, whose last inserted slice is \<open>r\<close>, \<^verbatim>\<open>GetRecent\<close> returns a slice with
  the same bytes as \<open>r\<close> (\<open>r\<close> itself unless \<open>r\<close> is \<^verbatim>\<open>nil\<close>), and the slot it
  reads, at \<open>ptr - 1\<close> or at \<open>size - 1\<close> when \<open>ptr\<close> is 0, holds \<open>r\<close>.
\<close>

theorem GetRecent_last_insert:
  assumes "Init n m = Inr b0" "run b0 xs = Inr b" "since_reset xs \<noteq> []"
  shows "\<exists>g. GetRecent b = Inr g \<and> bytes_Equal g (last (since_reset xs))
           \<and> (last (since_reset xs) = NilSlice \<or> g = last (since_reset xs))
           \<and> slot_at (data b) (if ptr b = 0 then size_buff b - 1 else ptr b - 1)
               = Inr (last (since_reset xs))"
proof -
  note b = Test_window(2,3,6) [OF assms(1,2)]
  let ?r = "last (since_reset xs)"
  have l: "last (chrono b) = ?r"
    by (simp only: b(2) last_window [OF assms(3) b(3)])
  let ?g = "if ptr b = 0 \<and> ?r = NilSlice then NilSlice else Slice (contents ?r)"
  have g: "GetRecent b = Inr ?g"
    by (simp only: GetRecent_eq [OF b(1)] l)
  have e: "bytes_Equal ?g ?r" by (simp add: bytes_Equal_def)
  have v: "?r = NilSlice \<or> ?g = ?r" by (cases ?r) simp_all
  have s: "slot_at (data b) (if ptr b = 0 then size_buff b - 1 else ptr b - 1) = Inr ?r"
    by (simp only: recent_slot [OF b(1)] l)
  show ?thesis
    by (rule exI [of _ ?g]) (intro conjI g e v s)
qed

theorem GetRecent_last_insert_witness:
  "Init 2 Recent = Inr \<lparr>size_buff = 2, mode = 0, ptr = 0, data = [NilSlice, NilSlice]\<rparr>
   \<and> run \<lparr>size_buff = 2, mode = 0, ptr = 0, data = [NilSlice, NilSlice]\<rparr>
        [OpAdd (Slice [1]), OpAdd (Slice [2]), OpTest (Slice [1]), OpAdd (Slice [3, 4])]
      = Inr \<lparr>size_buff = 2, mode = 0, ptr = 1, data = [Slice [3, 4], Slice [2]]\<rparr>
   \<and> since_reset [OpAdd (Slice [1]), OpAdd (Slice [2]), OpTest (Slice [1]), OpAdd (Slice [3, 4])]
      = [Slice [1], Slice [2], Slice [3, 4]]
   \<and> GetRecent \<lparr>size_buff = 2, mode = 0, ptr = 1, data = [Slice [3, 4], Slice [2]]\<rparr>
      = Inr (Slice [3, 4])"
proof -
  let ?init = "\<lparr>size_buff = 2, mode = 0, ptr = 0, data = [NilSlice, NilSlice]\<rparr>"
  let ?fin = "\<lparr>size_buff = 2, mode = 0, ptr = 1, data = [Slice [3, 4], Slice [2]]\<rparr>"
  let ?xs = "[OpAdd (Slice [1]), OpAdd (Slice [2]), OpTest (Slice [1]), OpAdd (Slice [3, 4])]"
  have h1: "Init 2 Recent = Inr ?init" by code_simp
  have h2: "run ?init ?xs = Inr ?fin" by code_simp
  have s: "since_reset ?xs = [Slice [1], Slice [2], Slice [3, 4]]" by (simp add: since_reset_def)
  then have h3: "since_reset ?xs \<noteq> []" by simp
  from GetRecent_last_insert [OF h1 h2 h3] s
  have "GetRecent ?fin = Inr (Slice [3, 4])" by auto
  with h1 h2 s show ?thesis by blast
qed

text \<open>
  Claim C4, as stated, fails: \<^verbatim>\<open>Add\<close> accepts the \<^verbatim>\<open>nil\<close> slice, and \<^verbatim>\<open>GetOldest\<close>
  passes over every \<^verbatim>\<open>nil\<close> slot, whether never written or written with \<^verbatim>\<open>nil\<close>.
  On a buffer of size 3, after \<^verbatim>\<open>Add(nil)\<close> and \<^verbatim>\<open>Add\<close> of the slice \<open>[9]\<close>, which is
  before any wrap, \<^verbatim>\<open>GetOldest\<close> returns \<open>[9]\<close>, the second insertion.
\<close>

theorem GetOldest_skips_nil_insert:
  "Init 3 Recent = Inr \<lparr>size_buff = 3, mode = 0, ptr = 0, data = [NilSlice, NilSlice, NilSlice]\<rparr>
   \<and> run \<lparr>size_buff = 3, mode = 0, ptr = 0, data = [NilSlice, NilSlice, NilSlice]\<rparr>
         [OpAdd NilSlice, OpAdd (Slice [9])]
      = Inr \<lparr>size_buff = 3, mode = 0, ptr = 2, data = [NilSlice, Slice [9], NilSlice]\<rparr>
   \<and> GetOldest \<lparr>size_buff = 3, mode = 0, ptr = 2, data = [NilSlice, Slice [9], NilSlice]\<rparr>
      = Inr (Slice [9])"
  by code_simp

text \<open>
  Claim C4, amended. In every state reached from \<^verbatim>\<open>Init\<close> on a buffer of size \<open>n\<close>,
  \<^verbatim>\<open>GetOldest\<close> returns the first slice that is not \<^verbatim>\<open>nil\<close> among the last \<open>n\<close>
  slices inserted since \<^verbatim>\<open>Init\<close> or the last \<^verbatim>\<open>Reset\<close> (all of them while there are
  at most \<open>n\<close>), and \<^verbatim>\<open>nil\<close> when there is none. So with between 1 and \<open>n\<close>
  insertions it returns the first-inserted slice when that one is not \<^verbatim>\<open>nil\<close>, and
  right after insertion number \<open>n + 1\<close>, the first to wrap, it returns the
  second-inserted slice when that one is not \<^verbatim>\<open>nil\<close>.
\<close>

theorem GetOldest_oldest_non_nil:
  assumes "Init n m = Inr b0" "run b0 xs = Inr b"
  shows "GetOldest b =
           Inr (case find (\<lambda>d. d \<noteq> NilSlice)
                       (drop (length (since_reset xs) - nat n) (since_reset xs)) of
                  None \<Rightarrow> NilSlice | Some d \<Rightarrow> d)
       \<and> (1 \<le> length (since_reset xs) \<and> length (since_reset xs) \<le> nat n
            \<and> since_reset xs ! 0 \<noteq> NilSlice
          \<longrightarrow> GetOldest b = Inr (since_reset xs ! 0))
       \<and> (length (since_reset xs) = nat n + 1 \<and> since_reset xs ! 1 \<noteq> NilSlice
          \<longrightarrow> GetOldest b = Inr (since_reset xs ! 1))"
proof -
  let ?rs = "since_reset xs"
  note b = Test_window(2,3,6) [OF assms]
  have g: "GetOldest b =
      Inr (case find (\<lambda>d. d \<noteq> NilSlice) (drop (length ?rs - nat n) ?rs) of
             None \<Rightarrow> NilSlice | Some d \<Rightarrow> d)"
    by (simp only: GetOldest_eq [OF b(1)] b(2) find_window_any)
  have "GetOldest b = Inr (?rs ! 0)"
    if "1 \<le> length ?rs" "length ?rs \<le> nat n" "?rs ! 0 \<noteq> NilSlice"
  proof -
    from that(1) obtain r rest where "?rs = r # rest" by (cases ?rs) auto
    with that(2,3) show ?thesis by (simp add: g)
  qed
  moreover have "GetOldest b = Inr (?rs ! 1)"
    if "length ?rs = nat n + 1" "?rs ! 1 \<noteq> NilSlice"
  proof -
    from that(1) b(3) obtain r0 r1 rest where "?rs = r0 # r1 # rest"
      by (cases ?rs; cases "tl ?rs") auto
    with that show ?thesis by (simp add: g)
  qed
  ultimately show ?thesis using g by blast
qed

theorem GetOldest_oldest_non_nil_witness:
  "Init 4 Recent = Inr \<lparr>size_buff = 4, mode = 0, ptr = 0, data = [NilSlice, NilSlice, NilSlice, NilSlice]\<rparr>
   \<and> run \<lparr>size_buff = 4, mode = 0, ptr = 0, data = [NilSlice, NilSlice, NilSlice, NilSlice]\<rparr>
        [OpAdd (Slice [97]), OpAdd (Slice [98]), OpAdd (Slice [99])]
      = Inr \<lparr>size_buff = 4, mode = 0, ptr = 3, data = [Slice [97], Slice [98], Slice [99], NilSlice]\<rparr>
   \<and> GetOldest \<lparr>size_buff = 4, mode = 0, ptr = 3, data = [Slice [97], Slice [98], Slice [99], NilSlice]\<rparr>
      = Inr (Slice [97])
   \<and> run \<lparr>size_buff = 4, mode = 0, ptr = 0, data = [NilSlice, NilSlice, NilSlice, NilSlice]\<rparr>
        [OpAdd (Slice [97]), OpAdd (Slice [98]), OpAdd (Slice [99]), OpAdd (Slice [100]),
         OpAdd (Slice [101])]
      = Inr \<lparr>size_buff = 4, mode = 0, ptr = 1, data = [Slice [101], Slice [98], Slice [99], Slice [100]]\<rparr>
   \<and> GetOldest \<lparr>size_buff = 4, mode = 0, ptr = 1, data = [Slice [101], Slice [98], Slice [99], Slice [100]]\<rparr>
      = Inr (Slice [98])"
proof -
  let ?init = "\<lparr>size_buff = 4, mode = 0, ptr = 0, data = [NilSlice, NilSlice, NilSlice, NilSlice]\<rparr>"
  let ?xs = "[OpAdd (Slice [97]), OpAdd (Slice [98]), OpAdd (Slice [99])]"
  let ?ys = "[OpAdd (Slice [97]), OpAdd (Slice [98]), OpAdd (Slice [99]), OpAdd (Slice [100]),
         OpAdd (Slice [101])]"
  let ?part = "\<lparr>size_buff = 4, mode = 0, ptr = 3, data = [Slice [97], Slice [98], Slice [99], NilSlice]\<rparr>"
  let ?full = "\<lparr>size_buff = 4, mode = 0, ptr = 1, data = [Slice [101], Slice [98], Slice [99], Slice [100]]\<rparr>"
  have h1: "Init 4 Recent = Inr ?init" by code_simp
  have x2: "run ?init ?xs = Inr ?part" by code_simp
  have x3: "since_reset ?xs = [Slice [97], Slice [98], Slice [99]]" by (simp add: since_reset_def)
  have y2: "run ?init ?ys = Inr ?full" by code_simp
  have y3: "since_reset ?ys = [Slice [97], Slice [98], Slice [99], Slice [100], Slice [101]]"
    by (simp add: since_reset_def)
  from GetOldest_oldest_non_nil [OF h1 x2] have "GetOldest ?part = Inr (Slice [97])"
    by (simp add: x3)
  moreover from GetOldest_oldest_non_nil [OF h1 y2] have "GetOldest ?full = Inr (Slice [98])"
    by (simp add: y3)
  ultimately show ?thesis using h1 x2 y2 by blast
qed

subsection \<open>The two scan modes\<close>

text \<open>
  Claim C5. Two buffers of the same size, one made in mode \<open>Recent\<close> and one in mode
  \<open>Oldest\<close>, that go through the same history answer every \<^verbatim>\<open>Test\<close> alike, although
  the first runs \<^verbatim>\<open>testRecent\<close> and the second \<^verbatim>\<open>testOldest\<close>.
\<close>

theorem Test_mode_invariant:
  assumes "Init n Recent = Inr a0" "run a0 xs = Inr a"
    and "Init n Oldest = Inr c0" "run c0 xs = Inr c"
  shows "Test a key = Test c key \<and> (\<exists>r. Test a key = Inr r)
       \<and> Test a key = testRecent a key \<and> Test c key = testOldest c key"
proof -
  note a = Test_window(1,2,5) [OF assms(1,2)]
  note c = Test_window(1,2,5) [OF assms(3,4)]
  have "Test a key = Test c key" by (simp only: a(1) c(1))
  moreover have "\<exists>r. Test a key = Inr r" by (simp only: a(1)) blast
  moreover have "Test a key = testRecent a key"
    by (simp add: Test_def a(3) Recent_def Oldest_def)
  moreover have "Test c key = testOldest c key"
    by (simp add: Test_def c(3))
  ultimately show ?thesis by blast
qed

theorem Test_mode_invariant_witness:
  "Init 2 Recent = Inr \<lparr>size_buff = 2, mode = 0, ptr = 0, data = [NilSlice, NilSlice]\<rparr>
   \<and> run \<lparr>size_buff = 2, mode = 0, ptr = 0, data = [NilSlice, NilSlice]\<rparr>
        [OpAdd (Slice [1]), OpAdd (Slice [2]), OpAdd (Slice [3])]
      = Inr \<lparr>size_buff = 2, mode = 0, ptr = 1, data = [Slice [3], Slice [2]]\<rparr>
   \<and> Init 2 Oldest = Inr \<lparr>size_buff = 2, mode = 1, ptr = 0, data = [NilSlice, NilSlice]\<rparr>
   \<and> run \<lparr>size_buff = 2, mode = 1, ptr = 0, data = [NilSlice, NilSlice]\<rparr>
        [OpAdd (Slice [1]), OpAdd (Slice [2]), OpAdd (Slice [3])]
      = Inr \<lparr>size_buff = 2, mode = 1, ptr = 1, data = [Slice [3], Slice [2]]\<rparr>
   \<and> Test \<lparr>size_buff = 2, mode = 0, ptr = 1, data = [Slice [3], Slice [2]]\<rparr> (Slice [2])
     = Test \<lparr>size_buff = 2, mode = 1, ptr = 1, data = [Slice [3], Slice [2]]\<rparr> (Slice [2])"
proof -
  let ?xs = "[OpAdd (Slice [1]), OpAdd (Slice [2]), OpAdd (Slice [3])]"
  let ?ri = "\<lparr>size_buff = 2, mode = 0, ptr = 0, data = [NilSlice, NilSlice]\<rparr>"
  let ?rf = "\<lparr>size_buff = 2, mode = 0, ptr = 1, data = [Slice [3], Slice [2]]\<rparr>"
  let ?oi = "\<lparr>size_buff = 2, mode = 1, ptr = 0, data = [NilSlice, NilSlice]\<rparr>"
  let ?of = "\<lparr>size_buff = 2, mode = 1, ptr = 1, data = [Slice [3], Slice [2]]\<rparr>"
  have h1: "Init 2 Recent = Inr ?ri" by code_simp
  have h2: "run ?ri ?xs = Inr ?rf" by code_simp
  have h3: "Init 2 Oldest = Inr ?oi" by code_simp
  have h4: "run ?oi ?xs = Inr ?of" by code_simp
  from Test_mode_invariant [OF h1 h2 h3 h4, of "Slice [2]"]
  have "Test ?rf (Slice [2]) = Test ?of (Slice [2])" by blast
  with h1 h2 h3 h4 show ?thesis by blast
qed

end
